theory Spec2Isabelle
  imports
    Main
    "HOL-Library.Char_ord"
    "HOL-Library.List_Lexorder"
    "HOL-Library.Product_Lexorder"
    "HOL-Library.AList"
    "HOL-Library.Sublist"
begin

section \<open>The file system\<close>

text \<open>
  \<^verbatim>\<open>zip_bootanimation.py\<close> reads a directory tree through \<^verbatim>\<open>pathlib\<close> and
  \<^verbatim>\<open>os.walk\<close> and writes zip archives next to the folders it finds. The file system is
  a tree: a regular file carries its data and a flag telling whether it can be opened for
  reading, a directory carries its listing, in the order in which the operating system
  enumerates it. A file that this program has written holds an archive, a list of entries.

  Names are strings of 8-bit characters and are read as ASCII: the comparisons of
  \<^verbatim>\<open>sort()\<close>, the class \<^verbatim>\<open>\d\<close> and the case folding of \<^verbatim>\<open>re.IGNORECASE\<close> are those of
  Python on ASCII text. A path is the list of its components below the root of the tree;
  paths are absolute and normalised, so \<^verbatim>\<open>Path.resolve()\<close> is the identity on them.
\<close>

type_synonym path = "string list"

datatype compression = ZIP_STORED | ZIP_DEFLATED

datatype content = Bytes string | Archive "zip_entry list"
  and zip_entry =
    ZipEntry (zi_filename: path) (zi_is_dir: bool) (zi_compress_type: compression)
      (zi_data: content)

datatype node = File bool content | Dir "(string \<times> node) list"

datatype error =
    FileNotFoundError | IsADirectoryError | NotADirectoryError | PermissionError | ValueError

fun node_is_dir :: "node \<Rightarrow> bool" where
  "node_is_dir (Dir es) = True"
| "node_is_dir (File r c) = False"

fun fs_lookup :: "node \<Rightarrow> path \<Rightarrow> node option" where
  "fs_lookup n [] = Some n"
| "fs_lookup (File r c) (x # p) = None"
| "fs_lookup (Dir es) (x # p) =
     (case map_of es x of None \<Rightarrow> None | Some n \<Rightarrow> fs_lookup n p)"

text \<open>\<^verbatim>\<open>Path.exists()\<close>, \<^verbatim>\<open>Path.is_dir()\<close>, \<^verbatim>\<open>Path.is_file()\<close>, \<^verbatim>\<open>Path.name\<close>.\<close>

definition path_exists :: "node \<Rightarrow> path \<Rightarrow> bool" where
  "path_exists fs p = (case fs_lookup fs p of None \<Rightarrow> False | Some n \<Rightarrow> True)"

definition is_dir :: "node \<Rightarrow> path \<Rightarrow> bool" where
  "is_dir fs p = (case fs_lookup fs p of None \<Rightarrow> False | Some n \<Rightarrow> node_is_dir n)"

definition is_file :: "node \<Rightarrow> path \<Rightarrow> bool" where
  "is_file fs p = (case fs_lookup fs p of None \<Rightarrow> False | Some n \<Rightarrow> \<not> node_is_dir n)"

definition path_name :: "path \<Rightarrow> string" where
  "path_name p = (if p = [] then [] else last p)"

text \<open>\<^verbatim>\<open>Path.iterdir()\<close>: the children of a directory, in listing order; it raises on
  anything that is not a directory.\<close>

definition iterdir :: "node \<Rightarrow> path \<Rightarrow> error + path list" where
  "iterdir fs p =
     (case fs_lookup fs p of
        None \<Rightarrow> Inl FileNotFoundError
      | Some (File r c) \<Rightarrow> Inl NotADirectoryError
      | Some (Dir es) \<Rightarrow> Inr (map (\<lambda>e. p @ [fst e]) es))"

text \<open>\<^verbatim>\<open>PurePath.suffix\<close> and \<^verbatim>\<open>PurePath.with_suffix\<close>: the suffix starts at the last dot
  of the name, unless that dot is the first or the last character; \<^verbatim>\<open>with_suffix\<close> raises
  \<^verbatim>\<open>ValueError\<close> on a path with an empty name.\<close>

definition rfind_dot :: "string \<Rightarrow> nat option" where
  "rfind_dot s =
     (case filter (\<lambda>i. s ! i = CHR ''.'') (rev [0 ..< length s]) of
        [] \<Rightarrow> None | i # _ \<Rightarrow> Some i)"

definition suffix_of :: "string \<Rightarrow> string" where
  "suffix_of s =
     (case rfind_dot s of
        None \<Rightarrow> []
      | Some i \<Rightarrow> if 0 < i \<and> i + 1 < length s then drop i s else [])"

definition with_suffix :: "path \<Rightarrow> string \<Rightarrow> error + path" where
  "with_suffix p sfx =
     (let nm = path_name p in
      if nm = [] then Inl ValueError
      else let old_suffix = suffix_of nm in
        Inr (butlast p @ [take (length nm - length old_suffix) nm @ sfx]))"

text \<open>Opening a path for writing creates the file or truncates it; the parent must be an
  existing directory and the path itself must not be a directory. A new file is appended
  to its parent's listing and is readable; an old one keeps its place and its mode.\<close>

fun fs_write :: "node \<Rightarrow> path \<Rightarrow> content \<Rightarrow> error + node" where
  "fs_write (File r c) [] c' = Inr (File r c')"
| "fs_write (Dir es) [] c' = Inl IsADirectoryError"
| "fs_write (File r c) (x # p) c' = Inl NotADirectoryError"
| "fs_write (Dir es) (x # p) c' =
     (case map_of es x of
        None \<Rightarrow>
          if p = [] then Inr (Dir (es @ [(x, File True c')])) else Inl FileNotFoundError
      | Some n \<Rightarrow>
          (case fs_write n p c' of
             Inl e \<Rightarrow> Inl e
           | Inr n' \<Rightarrow> Inr (Dir (AList.update x n' es))))"

section \<open>Validation\<close>

text \<open>\<^verbatim>\<open>is_valid_bootanimation_folder\<close>.\<close>

definition is_valid_bootanimation_folder :: "node \<Rightarrow> path \<Rightarrow> bool" where
  "is_valid_bootanimation_folder fs folder_path =
     (let part0_path = folder_path @ [''part0''];
          desc_path = folder_path @ [''desc.txt''];
          has_part0 = (path_exists fs part0_path \<and> is_dir fs part0_path);
          has_desc = (path_exists fs desc_path \<and> is_file fs desc_path)
      in has_part0 \<and> has_desc)"

section \<open>Discovery\<close>

text \<open>
  The pattern \<^verbatim>\<open>^bootanimation(\d*)$\<close> under \<^verbatim>\<open>re.IGNORECASE\<close>, applied with \<^verbatim>\<open>match\<close>:
  thirteen letters compared after case folding, then the longest run of digits (the
  group), and then \<^verbatim>\<open>$\<close>, which in Python matches at the end of the string and also just
  before a newline that ends the string. \<open>pattern_match\<close> returns the group of a match.
\<close>

definition lower :: "char \<Rightarrow> char" where
  "lower c =
     (case map_of (zip ''ABCDEFGHIJKLMNOPQRSTUVWXYZ'' ''abcdefghijklmnopqrstuvwxyz'') c of
        None \<Rightarrow> c
      | Some l \<Rightarrow> l)"

definition is_digit :: "char \<Rightarrow> bool" where
  "is_digit c = (CHR ''0'' \<le> c \<and> c \<le> CHR ''9'')"

definition pattern_match :: "string \<Rightarrow> string option" where
  "pattern_match s =
     (if map lower (take 13 s) = ''bootanimation''
      then let rest = drop 13 s;
               group1 = takeWhile is_digit rest;
               after = dropWhile is_digit rest
           in if after = [] \<or> after = [CHR 0x0A] then Some group1 else None
      else None)"

text \<open>\<^verbatim>\<open>int()\<close> of a string of decimal digits. (\<^verbatim>\<open>int()\<close> refuses strings of several
  thousand digits; a file name is far shorter.)\<close>

definition int_of_digits :: "string \<Rightarrow> nat" where
  "int_of_digits ds = foldl (\<lambda>a c. 10 * a + (of_char c - 48)) 0 ds"

text \<open>The local function \<^verbatim>\<open>sort_key\<close> of \<^verbatim>\<open>find_bootanimation_folders\<close>.\<close>

definition sort_key_of :: "path \<Rightarrow> nat \<times> nat" where
  "sort_key_of p =
     (case pattern_match (path_name p) of
        None \<Rightarrow> (0, 0)
      | Some group1 \<Rightarrow> if group1 \<noteq> [] then (1, int_of_digits group1) else (0, 0))"

text \<open>\<^verbatim>\<open>find_bootanimation_folders\<close>; \<^verbatim>\<open>sorted\<close> is stable, as \<^const>\<open>sort_key\<close> is.\<close>

definition find_bootanimation_folders :: "node \<Rightarrow> path \<Rightarrow> error + path list" where
  "find_bootanimation_folders fs directory =
     (case iterdir fs directory of
        Inl e \<Rightarrow> Inl e
      | Inr items \<Rightarrow>
          Inr (sort_key sort_key_of
                 (filter (\<lambda>item. is_dir fs item \<and> pattern_match (path_name item) \<noteq> None)
                    items)))"

section \<open>Archiving\<close>

text \<open>
  \<^verbatim>\<open>os.walk(top)\<close>, top-down, with the two in-place sorts of the loop body folded in:
  each directory yields its path, the names of its subdirectories and the names of its
  other entries, and then the subdirectories are walked in the order in which the body
  left \<^verbatim>\<open>dirs\<close>, each found again by name. A starting path that is no directory yields
  nothing. The walk reads the tree as it is once the archive has been opened: the program
  writes the archive beside the folder, never inside it.
\<close>

function walk :: "path \<Rightarrow> node \<Rightarrow> (path \<times> string list \<times> string list) list" where
  "walk root (File r c) = []"
| "walk root (Dir es) =
     (let dirs = sort (map fst (filter (\<lambda>e. node_is_dir (snd e)) es));
          files = sort (map fst (filter (\<lambda>e. \<not> node_is_dir (snd e)) es))
      in (root, dirs, files) #
         concat (map (\<lambda>d. case map_of es d of
                              None \<Rightarrow> []
                            | Some n \<Rightarrow> walk (root @ [d]) n) dirs))"
  by pat_completeness auto

termination walk
  by (relation "measure (\<lambda>(root, n). size n)")
    (fastforce dest!: map_of_SomeD simp: less_Suc_eq_le intro: size_list_estimation')+

definition os_walk :: "node \<Rightarrow> path \<Rightarrow> (path \<times> string list \<times> string list) list" where
  "os_walk fs root = (case fs_lookup fs root of None \<Rightarrow> [] | Some n \<Rightarrow> walk root n)"

text \<open>\<^verbatim>\<open>PurePath.relative_to\<close> raises \<^verbatim>\<open>ValueError\<close> unless the other path is a prefix.\<close>

definition relative_to :: "path \<Rightarrow> path \<Rightarrow> error + path" where
  "relative_to p other =
     (if take (length other) p = other then Inr (drop (length other) p) else Inl ValueError)"

text \<open>\<^verbatim>\<open>ZipFile.write(filename, arcname)\<close> appends one entry, compressed by the method the
  archive was opened with; it raises when the file is missing or cannot be read. An open
  archive is the list of the entries written so far.\<close>

definition zf_write ::
  "node \<Rightarrow> compression \<Rightarrow> zip_entry list \<Rightarrow> path \<Rightarrow> path \<Rightarrow> error + zip_entry list" where
  "zf_write fs compression zf filename arcname =
     (case fs_lookup fs filename of
        None \<Rightarrow> Inl FileNotFoundError
      | Some (Dir es) \<Rightarrow> Inr (zf @ [ZipEntry arcname True compression (Bytes [])])
      | Some (File r c) \<Rightarrow>
          if r then Inr (zf @ [ZipEntry arcname False compression c])
          else Inl PermissionError)"

text \<open>The inner and the outer \<^verbatim>\<open>for\<close> of \<^verbatim>\<open>zip_folder_store_only\<close>. An exception ends both; the entries
  written before it stay in the archive.\<close>

fun write_files ::
  "node \<Rightarrow> path \<Rightarrow> path \<Rightarrow> string list \<Rightarrow> zip_entry list \<Rightarrow> error option \<times> zip_entry list" where
  "write_files fs folder_path root [] zf = (None, zf)"
| "write_files fs folder_path root (file # files) zf =
     (let file_path = root @ [file] in
      case relative_to file_path folder_path of
        Inl e \<Rightarrow> (Some e, zf)
      | Inr arcname \<Rightarrow>
          (case zf_write fs ZIP_STORED zf file_path arcname of
             Inl e \<Rightarrow> (Some e, zf)
           | Inr zf' \<Rightarrow> write_files fs folder_path root files zf'))"

fun write_walk ::
  "node \<Rightarrow> path \<Rightarrow> (path \<times> string list \<times> string list) list \<Rightarrow> zip_entry list \<Rightarrow>
   error option \<times> zip_entry list" where
  "write_walk fs folder_path [] zf = (None, zf)"
| "write_walk fs folder_path ((root, dirs, files) # rest) zf =
     (case write_files fs folder_path root files zf of
        (Some e, zf') \<Rightarrow> (Some e, zf')
      | (None, zf') \<Rightarrow> write_walk fs folder_path rest zf')"

section \<open>The program\<close>

text \<open>What the program prints, one constructor for each \<^verbatim>\<open>print\<close> of the source (the
  three lines of the usage message are the one constructor \<open>Usage\<close>); \<open>Traceback\<close> is
  the interpreter's report of an exception nobody caught. The world is the file system
  and the lines printed so far.\<close>

datatype line =
    Searching path
  | Rule
  | NoFoldersFound
  | Found nat
  | Processing string
  | Skipped "string list"
  | Created string
  | ErrorZipping string error
  | Usage
  | ErrorDoesNotExist path
  | ErrorNotADirectory path
  | Done nat nat
  | Traceback error

type_synonym world = "node \<times> line list"

definition print :: "line list \<Rightarrow> world \<Rightarrow> world" where
  "print ls w = (fst w, snd w @ ls)"

text \<open>The \<^verbatim>\<open>with\<close> block of \<^verbatim>\<open>zip_folder_store_only\<close>, with the exception that leaves it,
  if any. \<^verbatim>\<open>ZipFile(output_zip, 'w')\<close> creates or truncates the file; leaving the block, also
  by an exception, closes the archive, which writes its directory of entries.\<close>

definition with_zipfile :: "node \<Rightarrow> path \<Rightarrow> path \<Rightarrow> error option \<times> node" where
  "with_zipfile fs folder_path output_zip =
     (case fs_write fs output_zip (Bytes []) of
        Inl e \<Rightarrow> (Some e, fs)
      | Inr fs1 \<Rightarrow>
          (case write_walk fs1 folder_path (os_walk fs1 folder_path) [] of
             (exc, zf) \<Rightarrow>
               (case fs_write fs1 output_zip (Archive zf) of
                  Inl e \<Rightarrow> (Some e, fs1)
                | Inr fs2 \<Rightarrow> (exc, fs2))))"

text \<open>\<^verbatim>\<open>zip_folder_store_only\<close>: \<^verbatim>\<open>try\<close> the block, \<^verbatim>\<open>except Exception\<close> print and return
  \<open>False\<close>.\<close>

definition zip_folder_store_only :: "world \<Rightarrow> path \<Rightarrow> path \<Rightarrow> bool \<times> world" where
  "zip_folder_store_only w folder_path output_zip =
     (case with_zipfile (fst w) folder_path output_zip of
        (None, fs') \<Rightarrow> (True, (fs', snd w))
      | (Some e, fs') \<Rightarrow>
          (False, print [ErrorZipping (path_name folder_path) e] (fs', snd w)))"

text \<open>The body of the loop of \<^verbatim>\<open>process_directory\<close>, on the counters and the world. An
  exception that leaves it carries the world it leaves behind.\<close>

definition process_folder ::
  "path \<Rightarrow> (nat \<times> nat) \<times> world \<Rightarrow> (error \<times> world) + ((nat \<times> nat) \<times> world)" where
  "process_folder folder st =
     (case st of ((successful, failed), w0) \<Rightarrow>
        let w = print [Processing (path_name folder)] w0 in
        if \<not> is_valid_bootanimation_folder (fst w) folder then
          let part0_exists = path_exists (fst w) (folder @ [''part0'']);
              desc_exists = path_exists (fst w) (folder @ [''desc.txt'']);
              missing = (if \<not> part0_exists then [''part0/''] else []) @
                        (if \<not> desc_exists then [''desc.txt''] else [])
          in Inr ((successful, failed + 1), print [Skipped missing] w)
        else
          (case with_suffix folder ''.zip'' of
             Inl e \<Rightarrow> Inl (e, w)
           | Inr output_zip \<Rightarrow>
               (case zip_folder_store_only w folder output_zip of
                  (ok, w') \<Rightarrow>
                    if ok then Inr ((successful + 1, failed),
                                    print [Created (path_name output_zip)] w')
                    else Inr ((successful, failed + 1), w'))))"

fun process_folders ::
  "path list \<Rightarrow> (nat \<times> nat) \<times> world \<Rightarrow> (error \<times> world) + ((nat \<times> nat) \<times> world)" where
  "process_folders [] st = Inr st"
| "process_folders (folder # folders) st =
     (case process_folder folder st of
        Inl x \<Rightarrow> Inl x
      | Inr st' \<Rightarrow> process_folders folders st')"

text \<open>\<^verbatim>\<open>process_directory\<close>.\<close>

definition process_directory ::
  "world \<Rightarrow> path \<Rightarrow> (error \<times> world) + ((nat \<times> nat) \<times> world)" where
  "process_directory w0 directory =
     (let w = print [Searching directory, Rule] w0 in
      case find_bootanimation_folders (fst w) directory of
        Inl e \<Rightarrow> Inl (e, w)
      | Inr bootanimation_folders \<Rightarrow>
          if bootanimation_folders = [] then Inr ((0, 0), print [NoFoldersFound] w)
          else process_folders bootanimation_folders
                 ((0, 0), print [Found (length bootanimation_folders)] w))"


section \<open>Notions used in the statements\<close>



text \<open>The files that a walk meets, as paths, in the order in which it meets them.\<close>

definition walk_files :: "path \<Rightarrow> node \<Rightarrow> path list" where
  "walk_files root n =
     concat (map (\<lambda>(r, dirs, files). map (\<lambda>f. r @ [f]) files) (walk root n))"



text \<open>The entry that the archive gets for a path relative to the folder, read in the
  folder's own tree, and the writing of a list of such paths.\<close>

definition entry_of :: "node \<Rightarrow> path \<Rightarrow> error + zip_entry" where
  "entry_of n q =
     (case fs_lookup n q of
        None \<Rightarrow> Inl FileNotFoundError
      | Some (Dir es) \<Rightarrow> Inr (ZipEntry q True ZIP_STORED (Bytes []))
      | Some (File r c) \<Rightarrow>
          if r then Inr (ZipEntry q False ZIP_STORED c) else Inl PermissionError)"

fun write_entries ::
  "node \<Rightarrow> path list \<Rightarrow> zip_entry list \<Rightarrow> error option \<times> zip_entry list" where
  "write_entries n [] zf = (None, zf)"
| "write_entries n (q # qs) zf =
     (case entry_of n q of
        Inl e \<Rightarrow> (Some e, zf)
      | Inr z \<Rightarrow> write_entries n qs (zf @ [z]))"

text \<open>The archive of a folder, computed from the folder's own tree: the exception that
  ends the writing, if any, and the entries written.\<close>

definition zip_tree :: "node \<Rightarrow> error option \<times> zip_entry list" where
  "zip_tree n = write_entries n (walk_files [] n) []"

text \<open>A folder fails when it is not valid or when its archiving raises.\<close>

definition folder_fails :: "node \<Rightarrow> path \<Rightarrow> bool" where
  "folder_fails fs folder =
     (\<not> is_valid_bootanimation_folder fs folder \<or>
      (case with_suffix folder ''.zip'' of
         Inl e \<Rightarrow> True
       | Inr output_zip \<Rightarrow> fst (with_zipfile fs folder output_zip) \<noteq> None))"

text \<open>What archiving leaves alone in a directory: which paths are directories, and
  everything at and below the folders whose names match the pattern.\<close>

definition same_below :: "path \<Rightarrow> node \<Rightarrow> node \<Rightarrow> bool" where
  "same_below d fs fs' =
     ((\<forall>q. is_dir fs' q = is_dir fs q) \<and>
      (\<forall>nm q. pattern_match nm \<noteq> None \<longrightarrow>
         fs_lookup fs' (d @ nm # q) = fs_lookup fs (d @ nm # q)))"

text \<open>The digits of a folder name: those that follow its first thirteen characters.\<close>

definition digit_suffix :: "string \<Rightarrow> string" where
  "digit_suffix nm = takeWhile is_digit (drop 13 nm)"

section \<open>Example file systems\<close>

text \<open>A directory \<^verbatim>\<open>d\<close> with one valid folder, the same tree listed in another order,
  and the entries of the folder's archive.\<close>

definition small_folder :: node where
  "small_folder =
     Dir [(''part0'', Dir [(''b.png'', File True (Bytes ''B'')),
                           (''a.png'', File True (Bytes ''A''))]),
          (''desc.txt'', File True (Bytes ''x''))]"




definition small_archive :: "zip_entry list" where
  "small_archive =
     [ZipEntry [''desc.txt''] False ZIP_STORED (Bytes ''x''),
      ZipEntry [''part0'', ''a.png''] False ZIP_STORED (Bytes ''A''),
      ZipEntry [''part0'', ''b.png''] False ZIP_STORED (Bytes ''B'')]"




text \<open>A directory with three folders in the order 10, none, 2.\<close>

definition numbered_fs :: node where
  "numbered_fs =
     Dir [(''d'', Dir [(''bootanimation10'', Dir []), (''BootAnimation'', Dir []),
                       (''bootanimation2'', Dir [])])]"

text \<open>A directory with a valid folder, a folder of wrong kinds and a folder with an
  unreadable file.\<close>

definition mixed_fs :: node where
  "mixed_fs =
     Dir [(''d'', Dir [
       (''bootanimation2'', Dir [(''part0'', Dir []), (''desc.txt'', File False (Bytes ''x''))]),
       (''bootanimation'', small_folder),
       (''bootanimation1'', Dir [(''part0'', File True (Bytes [])), (''desc.txt'', Dir [])])])]"

section \<open>Looking up paths\<close>

lemma fs_lookup_append:
  "fs_lookup fs (p @ q) = (case fs_lookup fs p of None \<Rightarrow> None | Some n \<Rightarrow> fs_lookup n q)"
proof (induction p arbitrary: fs)
  case Nil
  show ?case by simp
next
  case (Cons x p)
  show ?case
  proof (cases fs)
    case (File r c)
    then show ?thesis by simp
  next
    case (Dir es)
    then show ?thesis using Cons.IH by (simp split: option.splits)
  qed
qed

lemma fs_lookup_single:
  "fs_lookup n [x] = (case n of File r c \<Rightarrow> None | Dir es \<Rightarrow> map_of es x)"
  by (cases n) (auto split: option.splits)

lemma node_is_dir_iff: "node_is_dir n \<longleftrightarrow> (\<exists>es. n = Dir es)"
  by (cases n) auto

lemma not_node_is_dir_iff: "\<not> node_is_dir n \<longleftrightarrow> (\<exists>r c. n = File r c)"
  by (cases n) auto

lemma is_dir_iff: "is_dir fs p \<longleftrightarrow> (\<exists>es. fs_lookup fs p = Some (Dir es))"
  by (auto simp: is_dir_def node_is_dir_iff split: option.splits)

lemma is_file_iff: "is_file fs p \<longleftrightarrow> (\<exists>r c. fs_lookup fs p = Some (File r c))"
  by (auto simp: is_file_def not_node_is_dir_iff split: option.splits)

lemma path_exists_iff: "path_exists fs p \<longleftrightarrow> (\<exists>n. fs_lookup fs p = Some n)"
  by (auto simp: path_exists_def split: option.splits)

section \<open>Validation: what makes a folder valid\<close>

lemma valid_folder_iff:
  "is_valid_bootanimation_folder fs folder_path \<longleftrightarrow>
     (\<exists>es ds r c. fs_lookup fs folder_path = Some (Dir es) \<and>
        map_of es ''part0'' = Some (Dir ds) \<and> map_of es ''desc.txt'' = Some (File r c))"
  (is "?l = ?r")
proof
  assume ?l
  then obtain ds r c where p: "fs_lookup fs (folder_path @ [''part0'']) = Some (Dir ds)"
    and d: "fs_lookup fs (folder_path @ [''desc.txt'']) = Some (File r c)"
    by (auto simp: is_valid_bootanimation_folder_def Let_def is_dir_iff is_file_iff)
  from p obtain n where n: "fs_lookup fs folder_path = Some n"
    by (auto simp: fs_lookup_append split: option.splits)
  with p obtain es where es: "n = Dir es"
    by (cases n) (auto simp: fs_lookup_append)
  from p d n es show ?r
    by (simp add: fs_lookup_append fs_lookup_single)
next
  assume ?r
  then show ?l
    by (auto simp: is_valid_bootanimation_folder_def Let_def is_dir_iff is_file_iff
        path_exists_iff fs_lookup_append fs_lookup_single)
qed

text \<open>
  C3. For every file system and every folder path, \<open>is_valid_bootanimation_folder\<close>
  holds if and only if the path is a directory whose listing has an entry named
  \<^verbatim>\<open>part0\<close> that is a directory and an entry named \<^verbatim>\<open>desc.txt\<close> that is a regular file.
  Nothing else of the folder or of the file system occurs in the condition.
\<close>

theorem is_valid_iff_part0_and_desc:
  "is_valid_bootanimation_folder fs folder_path \<longleftrightarrow>
     (\<exists>es ds r c. fs_lookup fs folder_path = Some (Dir es) \<and>
        map_of es ''part0'' = Some (Dir ds) \<and> map_of es ''desc.txt'' = Some (File r c))"
  by (rule valid_folder_iff)

section \<open>Writing a file\<close>

lemma fs_lookup_File: "fs_lookup (File r c) q = (if q = [] then Some (File r c) else None)"
  by (cases q) auto

lemma map_of_snoc:
  "map_of es x = None \<Longrightarrow> map_of (es @ [(x, v)]) y = (if y = x then Some v else map_of es y)"
  by (auto simp: map_add_def split: option.splits)

lemma fs_write_lookup_other:
  "fs_write fs p c = Inr fs' \<Longrightarrow> \<not> prefix q p \<Longrightarrow> fs_lookup fs' q = fs_lookup fs q"
proof (induction p arbitrary: fs fs' q)
  case Nil
  then show ?case by (cases fs; cases q) auto
next
  case (Cons x p)
  from Cons.prems(1) obtain es where fs: "fs = Dir es" by (cases fs) auto
  from Cons.prems(2) obtain y q' where q: "q = y # q'" by (cases q) auto
  show ?case
  proof (cases "map_of es x")
    case None
    with Cons.prems fs have p: "p = []" and fs': "fs' = Dir (es @ [(x, File True c)])"
      by (auto split: if_splits)
    show ?thesis
    proof (cases "y = x")
      case True
      with Cons.prems(2) p q have "q' \<noteq> []" by auto
      with True None show ?thesis by (simp add: fs fs' q fs_lookup_File map_of_snoc del: map_of_append)
    next
      case False
      then show ?thesis using None by (simp add: fs fs' q map_of_snoc del: map_of_append)
    qed
  next
    case (Some n)
    with Cons.prems fs obtain n' where n': "fs_write n p c = Inr n'"
      and fs': "fs' = Dir (AList.update x n' es)"
      by (auto split: sum.splits)
    show ?thesis
    proof (cases "y = x")
      case True
      with Cons.prems(2) q have "\<not> prefix q' p" by simp
      from Cons.IH[OF n' this] True Some show ?thesis
        by (simp add: fs fs' q update_conv')
    next
      case False
      then show ?thesis by (simp add: fs fs' q update_conv')
    qed
  qed
qed


lemma fs_write_is_dir:
  "fs_write fs p c = Inr fs' \<Longrightarrow> is_dir fs' q = is_dir fs q"
proof (induction p arbitrary: fs fs' q)
  case Nil
  then show ?case by (cases fs; cases q) (auto simp: is_dir_iff)
next
  case (Cons x p)
  from Cons.prems obtain es where fs: "fs = Dir es" by (cases fs) auto
  show ?case
  proof (cases q)
    case Nil
    with Cons.prems fs show ?thesis
      by (auto simp: is_dir_iff split: option.splits if_splits sum.splits)
  next
    case q: (Cons y q')
    show ?thesis
    proof (cases "map_of es x")
      case None
      with Cons.prems fs have p: "p = []" and fs': "fs' = Dir (es @ [(x, File True c)])"
        by (auto split: if_splits)
      show ?thesis using None
        by (cases "y = x") (auto simp: fs fs' q is_dir_iff fs_lookup_File map_of_snoc simp del: map_of_append split: option.splits if_splits)
    next
      case (Some n)
      with Cons.prems fs obtain n' where n': "fs_write n p c = Inr n'"
        and fs': "fs' = Dir (AList.update x n' es)"
        by (auto split: sum.splits)
      from Cons.IH[OF n', of q'] Some show ?thesis
        by (cases "y = x") (auto simp: fs fs' q is_dir_iff update_conv')
    qed
  qed
qed

lemma fs_write_ok_iff:
  "(\<exists>fs'. fs_write fs p c = Inr fs') \<longleftrightarrow> \<not> is_dir fs p \<and> (p = [] \<or> is_dir fs (butlast p))"
proof (induction p arbitrary: fs)
  case Nil
  then show ?case by (cases fs) (auto simp: is_dir_iff)
next
  case (Cons x p)
  show ?case
  proof (cases fs)
    case (File r c0)
    then show ?thesis by (auto simp: is_dir_iff)
  next
    case (Dir es)
    show ?thesis
    proof (cases "map_of es x")
      case None
      then show ?thesis using Dir by (cases p) (auto simp: is_dir_iff)
    next
      case (Some n)
      from Cons.IH[of n] Some Dir show ?thesis
        by (cases p) (auto simp: is_dir_iff split: sum.splits)
    qed
  qed
qed

section \<open>Names that match the pattern\<close>

lemma pattern_match_parts:
  assumes "pattern_match s = Some g"
  shows "s = take 13 s @ g @ dropWhile is_digit (drop 13 s)"
    and "map lower (take 13 s) = ''bootanimation''"
    and "g = takeWhile is_digit (drop 13 s)"
    and "dropWhile is_digit (drop 13 s) = [] \<or> dropWhile is_digit (drop 13 s) = [CHR 0x0A]"
proof -
  from assms show 2: "map lower (take 13 s) = ''bootanimation''"
    and 3: "g = takeWhile is_digit (drop 13 s)"
    and 4: "dropWhile is_digit (drop 13 s) = [] \<or> dropWhile is_digit (drop 13 s) = [CHR 0x0A]"
    by (auto simp: pattern_match_def Let_def split: if_splits)
  have "s = take 13 s @ drop 13 s" by simp
  also have "drop 13 s = g @ dropWhile is_digit (drop 13 s)" unfolding 3 by simp
  finally show "s = take 13 s @ g @ dropWhile is_digit (drop 13 s)" .
qed

lemma pattern_match_length:
  assumes "pattern_match s = Some g"
  shows "length (take 13 s) = 13"
proof -
  have "length (map lower (take 13 s)) = length ''bootanimation''"
    using pattern_match_parts(2)[OF assms] by simp
  then show ?thesis by simp
qed

lemma pattern_match_nonempty: "pattern_match s = Some g \<Longrightarrow> s \<noteq> []"
  using pattern_match_length[of s g] by auto

lemma pattern_match_no_dot:
  assumes "pattern_match s = Some g"
  shows "CHR ''.'' \<notin> set s"
proof
  assume dot: "CHR ''.'' \<in> set s"
  note parts = pattern_match_parts[OF assms]
  from dot parts(1) have "CHR ''.'' \<in> set (take 13 s) \<or> CHR ''.'' \<in> set g
      \<or> CHR ''.'' \<in> set (dropWhile is_digit (drop 13 s))"
    by (metis Un_iff set_append)
  then show False
  proof (elim disjE)
    assume "CHR ''.'' \<in> set (take 13 s)"
    then have "lower CHR ''.'' \<in> set (map lower (take 13 s))" by (metis image_eqI set_map)
    then show False unfolding parts(2) by (simp add: lower_def)
  next
    assume "CHR ''.'' \<in> set g"
    then have "is_digit CHR ''.''" unfolding parts(3) by (rule set_takeWhileD[THEN conjunct2])
    then show False by (simp add: is_digit_def)
  next
    assume "CHR ''.'' \<in> set (dropWhile is_digit (drop 13 s))"
    with parts(4) show False by (elim disjE) simp_all
  qed
qed

lemma rfind_dot_None:
  assumes "CHR ''.'' \<notin> set s"
  shows "rfind_dot s = None"
proof -
  have "\<And>i. i < length s \<Longrightarrow> s ! i \<noteq> CHR ''.''"
    using assms nth_mem by fastforce
  then have "filter (\<lambda>i. s ! i = CHR ''.'') (rev [0 ..< length s]) = []"
    by (simp add: filter_empty_conv)
  then show ?thesis by (simp add: rfind_dot_def)
qed

lemma with_suffix_match:
  assumes "pattern_match nm = Some g"
  shows "with_suffix (d @ [nm]) sfx = Inr (d @ [nm @ sfx])"
  using pattern_match_nonempty[OF assms] rfind_dot_None[OF pattern_match_no_dot[OF assms]]
  by (simp add: with_suffix_def path_name_def suffix_of_def)

lemma pattern_match_zip:
  assumes "pattern_match nm = Some g"
  shows "pattern_match (nm @ ''.zip'') = None"
proof (rule ccontr)
  assume "pattern_match (nm @ ''.zip'') \<noteq> None"
  then obtain g' where "pattern_match (nm @ ''.zip'') = Some g'" by auto
  from pattern_match_no_dot[OF this] show False by simp
qed

section \<open>Walking a folder and writing its files\<close>

lemma write_entries_append:
  "write_entries n (xs @ ys) zf =
     (case write_entries n xs zf of
        (Some e, zf') \<Rightarrow> (Some e, zf')
      | (None, zf') \<Rightarrow> write_entries n ys zf')"
  by (induction xs arbitrary: zf) (auto split: sum.splits)

lemma relative_to_append: "relative_to (folder @ q) folder = Inr q"
  by (simp add: relative_to_def)

lemma zf_write_entry_of:
  assumes "fs_lookup fs folder = Some n0"
  shows "zf_write fs ZIP_STORED zf (folder @ q) q =
     (case entry_of n0 q of Inl e \<Rightarrow> Inl e | Inr z \<Rightarrow> Inr (zf @ [z]))"
  using assms
  by (simp add: zf_write_def entry_of_def fs_lookup_append split: option.splits node.splits)

lemma write_files_entries:
  assumes "fs_lookup fs folder = Some n0"
  shows "write_files fs folder (folder @ r) files zf =
     write_entries n0 (map (\<lambda>f. r @ [f]) files) zf"
proof (induction files arbitrary: zf)
  case Nil
  show ?case by simp
next
  case (Cons f files)
  have "relative_to ((folder @ r) @ [f]) folder = Inr (r @ [f])"
    using relative_to_append[of folder "r @ [f]"] by simp
  moreover have "zf_write fs ZIP_STORED zf ((folder @ r) @ [f]) (r @ [f]) =
     (case entry_of n0 (r @ [f]) of Inl e \<Rightarrow> Inl e | Inr z \<Rightarrow> Inr (zf @ [z]))"
    using zf_write_entry_of[OF assms, of zf "r @ [f]"] by simp
  ultimately show ?case using Cons.IH
    by (simp add: Let_def split: sum.splits)
qed

lemma write_walk_entries:
  assumes "fs_lookup fs folder = Some n0"
  shows "write_walk fs folder (map (\<lambda>(r, ds, fs). (folder @ r, ds, fs)) triples) zf =
     write_entries n0 (concat (map (\<lambda>(r, ds, files). map (\<lambda>f. r @ [f]) files) triples)) zf"
proof (induction triples arbitrary: zf)
  case Nil
  show ?case by simp
next
  case (Cons t triples)
  obtain r ds files where t: "t = (r, ds, files)" by (cases t) auto
  show ?case
    using Cons.IH
    by (simp add: t write_files_entries[OF assms] write_entries_append split: prod.splits option.splits)
qed

lemma walk_shift:
  "walk (p @ r) n = map (\<lambda>(r', ds, fs). (p @ r', ds, fs)) (walk r n)"
proof (induction n arbitrary: r)
  case (File b c)
  show ?case by simp
next
  case (Dir es)
  have IH: "walk (p @ r) n' = map (\<lambda>(r', ds, fs). (p @ r', ds, fs)) (walk r n')"
    if "map_of es d = Some n'" for d n' r
  proof -
    from that have "(d, n') \<in> set es" by (rule map_of_SomeD)
    then show ?thesis using Dir.IH[of "(d, n')" n' r] by simp
  qed
  have step: "(case map_of es d of None \<Rightarrow> [] | Some n' \<Rightarrow> walk ((p @ r) @ [d]) n') =
      map (\<lambda>(r', ds, fs). (p @ r', ds, fs))
        (case map_of es d of None \<Rightarrow> [] | Some n' \<Rightarrow> walk (r @ [d]) n')" for d
  proof (cases "map_of es d")
    case None
    then show ?thesis by simp
  next
    case (Some n')
    then show ?thesis using IH[OF Some, of "r @ [d]"] by simp
  qed
  show ?case
    unfolding walk.simps Let_def step
    by (simp add: map_concat comp_def)
qed


lemma os_walk_subtree:
  assumes "fs_lookup fs folder = Some n0"
  shows "write_walk fs folder (os_walk fs folder) zf = write_entries n0 (walk_files [] n0) zf"
proof -
  have "os_walk fs folder = map (\<lambda>(r, ds, fs). (folder @ r, ds, fs)) (walk [] n0)"
    using assms walk_shift[of folder "[]" n0] by (simp add: os_walk_def)
  then show ?thesis
    using write_walk_entries[OF assms, of "walk [] n0" zf] by (simp add: walk_files_def)
qed














section \<open>The archive that is written\<close>

lemma fs_write_again:
  assumes "fs_write fs out c = Inr fs1"
  shows "\<exists>fs2. fs_write fs1 out c' = Inr fs2"
proof -
  from assms have ok: "\<not> is_dir fs out \<and> (out = [] \<or> is_dir fs (butlast out))"
    using fs_write_ok_iff[of fs out c] by blast
  have "is_dir fs1 q = is_dir fs q" for q
    by (rule fs_write_is_dir[OF assms])
  with ok have "\<not> is_dir fs1 out \<and> (out = [] \<or> is_dir fs1 (butlast out))" by simp
  then show ?thesis using fs_write_ok_iff[of fs1 out c'] by blast
qed

lemma with_zipfile_open_fails:
  "fs_write fs out (Bytes []) = Inl e \<Longrightarrow> with_zipfile fs folder out = (Some e, fs)"
  by (simp add: with_zipfile_def)

lemma with_zipfile_opened:
  assumes op: "fs_write fs out (Bytes []) = Inr fs1"
    and np: "\<not> prefix folder out"
    and n0: "fs_lookup fs folder = Some n0"
  shows "\<exists>fs2. fs_write fs1 out (Archive (snd (zip_tree n0))) = Inr fs2 \<and>
     with_zipfile fs folder out = (fst (zip_tree n0), fs2)"
proof -
  have "fs_lookup fs1 folder = Some n0"
    using fs_write_lookup_other[OF op np] n0 by simp
  then have ww: "write_walk fs1 folder (os_walk fs1 folder) [] = zip_tree n0"
    by (simp add: os_walk_subtree zip_tree_def)
  obtain fs2 where fs2: "fs_write fs1 out (Archive (snd (zip_tree n0))) = Inr fs2"
    using fs_write_again[OF op] by blast
  have "with_zipfile fs folder out = (fst (zip_tree n0), fs2)"
    using op ww fs2 by (cases "zip_tree n0") (simp add: with_zipfile_def)
  with fs2 show ?thesis by blast
qed

lemma with_zipfile_frame:
  assumes "with_zipfile fs folder out = (exc, fs')"
  shows "is_dir fs' q = is_dir fs q"
    and "\<not> prefix q out \<Longrightarrow> fs_lookup fs' q = fs_lookup fs q"
proof -
  have "is_dir fs' q = is_dir fs q \<and> (\<not> prefix q out \<longrightarrow> fs_lookup fs' q = fs_lookup fs q)"
  proof (cases "fs_write fs out (Bytes [])")
    case (Inl e)
    with assms show ?thesis by (simp add: with_zipfile_def)
  next
    case (Inr fs1)
    note f1 = fs_write_is_dir[OF Inr, of q] fs_write_lookup_other[OF Inr, of q]
    obtain exc0 zf where ww: "write_walk fs1 folder (os_walk fs1 folder) [] = (exc0, zf)"
      by (cases "write_walk fs1 folder (os_walk fs1 folder) []") auto
    show ?thesis
    proof (cases "fs_write fs1 out (Archive zf)")
      case (Inl e)
      with assms Inr ww have "fs' = fs1" by (simp add: with_zipfile_def)
      with f1 show ?thesis by simp
    next
      case fs2: (Inr fs2)
      with assms Inr ww have "fs' = fs2" by (simp add: with_zipfile_def)
      with f1 fs_write_is_dir[OF fs2, of q] fs_write_lookup_other[OF fs2, of q]
      show ?thesis by simp
    qed
  qed
  then show "is_dir fs' q = is_dir fs q"
    and "\<not> prefix q out \<Longrightarrow> fs_lookup fs' q = fs_lookup fs q" by simp_all
qed


lemma with_zipfile_exc_iff:
  assumes np: "\<not> prefix folder out"
    and n0: "fs_lookup fs folder = Some n0"
  shows "fst (with_zipfile fs folder out) = None \<longleftrightarrow>
     \<not> is_dir fs out \<and> (out = [] \<or> is_dir fs (butlast out)) \<and> fst (zip_tree n0) = None"
proof (cases "fs_write fs out (Bytes [])")
  case (Inl e)
  then have "\<not> (\<exists>fs1. fs_write fs out (Bytes []) = Inr fs1)" by simp
  then have "\<not> (\<not> is_dir fs out \<and> (out = [] \<or> is_dir fs (butlast out)))"
    unfolding fs_write_ok_iff .
  then show ?thesis using with_zipfile_open_fails[OF Inl] by auto
next
  case (Inr fs1)
  then have "\<exists>fs1. fs_write fs out (Bytes []) = Inr fs1" by blast
  then have "\<not> is_dir fs out \<and> (out = [] \<or> is_dir fs (butlast out))"
    unfolding fs_write_ok_iff .
  then show ?thesis using with_zipfile_opened[OF Inr np n0] by auto
qed

lemma write_entries_origin:
  "write_entries n qs zf = (exc, zf') \<Longrightarrow>
   set zf' \<subseteq> set zf \<union> {z. \<exists>q \<in> set qs. entry_of n q = Inr z}"
proof (induction qs arbitrary: zf)
  case Nil
  then show ?case by auto
next
  case (Cons q qs)
  show ?case
  proof (cases "entry_of n q")
    case (Inl e)
    with Cons.prems show ?thesis by auto
  next
    case (Inr z)
    with Cons.prems have "write_entries n qs (zf @ [z]) = (exc, zf')" by simp
    from Cons.IH[OF this] Inr show ?thesis by auto
  qed
qed













section \<open>Discovery and the loop over the folders\<close>

lemma path_name_snoc: "path_name (d @ [nm]) = nm"
  by (simp add: path_name_def)

lemma find_on_dir:
  assumes "fs_lookup fs d = Some (Dir es)"
  shows "find_bootanimation_folders fs d =
     Inr (sort_key sort_key_of
            (filter (\<lambda>item. is_dir fs item \<and> pattern_match (path_name item) \<noteq> None)
               (map (\<lambda>e. d @ [fst e]) es)))"
  using assms by (simp add: find_bootanimation_folders_def iterdir_def)

lemma find_total: "is_dir fs d \<Longrightarrow> \<exists>folders. find_bootanimation_folders fs d = Inr folders"
  by (auto simp: is_dir_iff find_on_dir)

lemma find_member:
  assumes "find_bootanimation_folders fs d = Inr folders" and "folder \<in> set folders"
  shows "\<exists>nm g. folder = d @ [nm] \<and> pattern_match nm = Some g \<and> is_dir fs folder"
proof -
  from assms(1) obtain items where it: "iterdir fs d = Inr items"
    and f: "folders = sort_key sort_key_of
        (filter (\<lambda>item. is_dir fs item \<and> pattern_match (path_name item) \<noteq> None) items)"
    by (auto simp: find_bootanimation_folders_def split: sum.splits)
  from it obtain es where "fs_lookup fs d = Some (Dir es)"
    by (auto simp: iterdir_def split: option.splits node.splits)
  with it have items: "items = map (\<lambda>e. d @ [fst e]) es" by (simp add: iterdir_def)
  from assms(2) f have "folder \<in> set items" and dir: "is_dir fs folder"
    and pm: "pattern_match (path_name folder) \<noteq> None" by simp_all
  from this(1) items obtain nm where nm: "folder = d @ [nm]" by auto
  with pm obtain g where "pattern_match nm = Some g" by (auto simp: path_name_snoc)
  with nm dir show ?thesis by blast
qed

lemma is_dir_parent:
  assumes "is_dir fs (d @ [nm])"
  shows "is_dir fs d"
proof -
  from assms obtain es where "fs_lookup fs (d @ [nm]) = Some (Dir es)" by (auto simp: is_dir_iff)
  then obtain n where n: "fs_lookup fs d = Some n" and "fs_lookup n [nm] = Some (Dir es)"
    by (auto simp: fs_lookup_append split: option.splits)
  then show ?thesis by (cases n) (auto simp: is_dir_iff)
qed

text \<open>One turn of the loop, on a folder whose name matches the pattern.\<close>

lemma process_folder_invalid:
  assumes "\<not> is_valid_bootanimation_folder fs folder"
  shows "process_folder folder ((s, f), (fs, out)) =
     Inr ((s, Suc f),
          (fs, out @ [Processing (path_name folder),
                      Skipped ((if \<not> path_exists fs (folder @ [''part0'']) then [''part0/''] else []) @
                               (if \<not> path_exists fs (folder @ [''desc.txt''])
                                then [''desc.txt''] else []))]))"
  using assms by (simp add: process_folder_def print_def Let_def)

lemma process_folder_valid:
  assumes "is_valid_bootanimation_folder fs (d @ [nm])"
    and "pattern_match nm = Some g"
    and "with_zipfile fs (d @ [nm]) (d @ [nm @ ''.zip'']) = (exc, fs')"
  shows "process_folder (d @ [nm]) ((s, f), (fs, out)) =
     (case exc of
        None \<Rightarrow> Inr ((Suc s, f), (fs', out @ [Processing nm, Created (nm @ ''.zip'')]))
      | Some e \<Rightarrow> Inr ((s, Suc f), (fs', out @ [Processing nm, ErrorZipping nm e])))"
  using assms with_suffix_match[OF assms(2), of d "''.zip''"]
  by (simp add: process_folder_def print_def Let_def path_name_snoc zip_folder_store_only_def
      split: option.splits)

lemma same_below_refl: "same_below d fs fs"
  by (simp add: same_below_def)

lemma same_below_trans: "same_below d a b \<Longrightarrow> same_below d b c \<Longrightarrow> same_below d a c"
  by (simp add: same_below_def)

lemma not_prefix_zip:
  assumes "pattern_match nm = Some g" and "pattern_match nm' \<noteq> None"
  shows "\<not> prefix (d @ nm' # q) (d @ [nm @ ''.zip''])"
proof
  assume "prefix (d @ nm' # q) (d @ [nm @ ''.zip''])"
  then have "prefix (nm' # q) [nm @ ''.zip'']" by simp
  then have "nm' = nm @ ''.zip''" by (cases q) (auto simp: prefix_Cons)
  with pattern_match_zip[OF assms(1)] assms(2) show False by simp
qed

lemma same_below_zip:
  assumes "pattern_match nm = Some g"
    and "with_zipfile fs (d @ [nm]) (d @ [nm @ ''.zip'']) = (exc, fs')"
  shows "same_below d fs fs'"
  unfolding same_below_def
  using with_zipfile_frame[OF assms(2)] not_prefix_zip[OF assms(1)]
  by simp

lemma same_below_folder:
  assumes "same_below d fs fs'" and "pattern_match nm \<noteq> None"
  shows "fs_lookup fs' ((d @ [nm]) @ q) = fs_lookup fs ((d @ [nm]) @ q)"
  using assms by (simp add: same_below_def)

lemma same_below_valid:
  assumes "same_below d fs fs'" and "pattern_match nm \<noteq> None"
  shows "is_valid_bootanimation_folder fs' (d @ [nm]) = is_valid_bootanimation_folder fs (d @ [nm])"
  using same_below_folder[OF assms, of "[''part0'']"] same_below_folder[OF assms, of "[''desc.txt'']"]
  by (simp add: is_valid_bootanimation_folder_def Let_def path_exists_def is_dir_def is_file_def)

lemma with_zipfile_exc_folder:
  assumes pm: "pattern_match nm = Some g" and n0: "fs_lookup fs (d @ [nm]) = Some n0"
    and dir: "is_dir fs d"
  shows "fst (with_zipfile fs (d @ [nm]) (d @ [nm @ ''.zip''])) = None \<longleftrightarrow>
     \<not> is_dir fs (d @ [nm @ ''.zip'']) \<and> fst (zip_tree n0) = None"
proof -
  have np: "\<not> prefix (d @ [nm]) (d @ [nm @ ''.zip''])"
    using not_prefix_zip[OF pm, of nm d "[]"] pm by simp
  from with_zipfile_exc_iff[OF np n0] dir show ?thesis by simp
qed

lemma same_below_exc:
  assumes sb: "same_below d fs fs'" and pm: "pattern_match nm = Some g"
    and dir: "is_dir fs (d @ [nm])"
  shows "(fst (with_zipfile fs' (d @ [nm]) (d @ [nm @ ''.zip''])) = None) =
         (fst (with_zipfile fs (d @ [nm]) (d @ [nm @ ''.zip''])) = None)"
proof -
  from dir obtain n0 where n0: "fs_lookup fs (d @ [nm]) = Some n0" by (auto simp: is_dir_iff)
  from same_below_folder[OF sb, of nm "[]"] pm n0
  have n0': "fs_lookup fs' (d @ [nm]) = Some n0" by simp
  from sb have isd: "is_dir fs' q = is_dir fs q" for q by (simp add: same_below_def)
  from is_dir_parent[OF dir] have d: "is_dir fs d" .
  with isd have d': "is_dir fs' d" by simp
  show ?thesis
    unfolding with_zipfile_exc_folder[OF pm n0 d] with_zipfile_exc_folder[OF pm n0' d']
    by (simp add: isd)
qed

lemma same_below_fails:
  assumes sb: "same_below d fs fs'" and pm: "pattern_match nm = Some g"
    and dir: "is_dir fs (d @ [nm])"
  shows "folder_fails fs' (d @ [nm]) = folder_fails fs (d @ [nm])"
  using same_below_exc[OF assms] same_below_valid[OF sb, of nm] pm
  by (simp add: folder_fails_def with_suffix_match[OF pm])

lemma process_folder_step:
  assumes pm: "pattern_match nm = Some g"
  shows "\<exists>fs' out'.
     process_folder (d @ [nm]) ((s, f), (fs, out)) =
       Inr ((if folder_fails fs (d @ [nm]) then (s, Suc f) else (Suc s, f)), (fs', out')) \<and>
     same_below d fs fs'"
proof (cases "is_valid_bootanimation_folder fs (d @ [nm])")
  case False
  then have "folder_fails fs (d @ [nm])" by (simp add: folder_fails_def)
  with process_folder_invalid[OF False, of s f out] same_below_refl[of d fs]
  show ?thesis by auto
next
  case True
  obtain exc fs' where z: "with_zipfile fs (d @ [nm]) (d @ [nm @ ''.zip'']) = (exc, fs')"
    by (cases "with_zipfile fs (d @ [nm]) (d @ [nm @ ''.zip''])") auto
  have ff: "folder_fails fs (d @ [nm]) \<longleftrightarrow> exc \<noteq> None"
    using True z by (simp add: folder_fails_def with_suffix_match[OF pm])
  from process_folder_valid[OF True pm z, of s f out] same_below_zip[OF pm z] ff
  show ?thesis by (cases exc) auto
qed

lemma process_folders_run:
  assumes "\<And>folder. folder \<in> set folders \<Longrightarrow>
      \<exists>nm g. folder = d @ [nm] \<and> pattern_match nm = Some g \<and> is_dir fs0 folder"
    and "same_below d fs0 fs"
  shows "\<exists>fs' out'.
     process_folders folders ((s, f), (fs, out)) =
       Inr ((s + length (filter (\<lambda>x. \<not> folder_fails fs0 x) folders),
             f + length (filter (folder_fails fs0) folders)), (fs', out')) \<and>
     same_below d fs0 fs'"
  using assms
proof (induction folders arbitrary: s f fs out)
  case Nil
  then show ?case by simp
next
  case (Cons folder folders)
  from Cons.prems(1)[of folder] obtain nm g where nm: "folder = d @ [nm]"
    and pm: "pattern_match nm = Some g" and dir: "is_dir fs0 folder" by auto
  from process_folder_step[OF pm, of d s f fs out] obtain fs1 out1
    where step: "process_folder folder ((s, f), (fs, out)) =
        Inr ((if folder_fails fs folder then (s, Suc f) else (Suc s, f)), (fs1, out1))"
      and sb1: "same_below d fs fs1" unfolding nm by blast
  have ff: "folder_fails fs folder = folder_fails fs0 folder"
    using same_below_fails[OF Cons.prems(2) pm] dir unfolding nm by simp
  have sb: "same_below d fs0 fs1" by (rule same_below_trans[OF Cons.prems(2) sb1])
  have rest: "\<And>x. x \<in> set folders \<Longrightarrow>
      \<exists>nm g. x = d @ [nm] \<and> pattern_match nm = Some g \<and> is_dir fs0 x"
    using Cons.prems(1) by simp
  show ?case
  proof (cases "folder_fails fs0 folder")
    case True
    from Cons.IH[OF rest sb, of s "Suc f" out1] step ff True show ?thesis by simp
  next
    case False
    from Cons.IH[OF rest sb, of "Suc s" f out1] step ff False show ?thesis by simp
  qed
qed

section \<open>Counters and exit status\<close>

lemma process_directory_run:
  assumes "is_dir fs directory"
  shows "\<exists>folders w'.
     find_bootanimation_folders fs directory = Inr folders \<and>
     process_directory (fs, out) directory =
       Inr ((length (filter (\<lambda>x. \<not> folder_fails fs x) folders),
             length (filter (folder_fails fs) folders)), w')"
proof -
  from find_total[OF assms] obtain folders
    where f: "find_bootanimation_folders fs directory = Inr folders" by blast
  show ?thesis
  proof (cases "folders = []")
    case True
    with f show ?thesis by (simp add: process_directory_def print_def)
  next
    case False
    from process_folders_run[of folders directory fs fs 0 0
        "out @ [Searching directory, Rule, Found (length folders)]"]
      find_member[OF f] same_below_refl[of directory fs]
    obtain fs' out' where
      "process_folders folders ((0, 0), (fs, out @ [Searching directory, Rule, Found (length folders)])) =
       Inr ((length (filter (\<lambda>x. \<not> folder_fails fs x) folders),
             length (filter (folder_fails fs) folders)), (fs', out'))"
      by auto
    with f False show ?thesis by (simp add: process_directory_def print_def)
  qed
qed

text \<open>
  C8. For every input directory, discovery returns a list of folders and processing
  returns a pair \<open>(successful, failed)\<close> with \<open>successful + failed\<close> equal to the number
  of discovered folders: \<open>failed\<close> counts the folders that are skipped or whose archiving
  raises, \<open>successful\<close> counts the others, so every folder is counted exactly once. No
  exception leaves \<open>process_directory\<close>.
\<close>

theorem processing_counts_every_folder:
  assumes "is_dir fs directory"
  shows "\<exists>folders successful failed w'.
     find_bootanimation_folders fs directory = Inr folders \<and>
     process_directory (fs, out) directory = Inr ((successful, failed), w') \<and>
     successful + failed = length folders \<and>
     successful = length (filter (\<lambda>folder. \<not> folder_fails fs folder) folders) \<and>
     failed = length (filter (folder_fails fs) folders)"
proof -
  from process_directory_run[OF assms, of out] obtain folders w'
    where f: "find_bootanimation_folders fs directory = Inr folders"
      and p: "process_directory (fs, out) directory =
       Inr ((length (filter (\<lambda>x. \<not> folder_fails fs x) folders),
             length (filter (folder_fails fs) folders)), w')" by blast
  have "length (filter (\<lambda>x. \<not> folder_fails fs x) folders) +
      length (filter (folder_fails fs) folders) = length folders"
    using sum_length_filter_compl[of "folder_fails fs" folders] by simp
  with f p show ?thesis by blast
qed






section \<open>Discovery: order and names\<close>

lemma pattern_match_digit_suffix: "pattern_match nm = Some g \<Longrightarrow> g = digit_suffix nm"
  by (simp add: pattern_match_parts(3) digit_suffix_def)

lemma sort_key_of_folder:
  assumes "pattern_match nm = Some g"
  shows "sort_key_of (d @ [nm]) =
     (if digit_suffix nm \<noteq> [] then (1, int_of_digits (digit_suffix nm)) else (0, 0))"
  using assms pattern_match_digit_suffix[OF assms]
  by (simp add: sort_key_of_def path_name_snoc)

text \<open>
  C5. In the list that discovery returns, a folder without digits after
  \<^verbatim>\<open>bootanimation\<close> never comes after a folder with digits, and the folders with digits
  come in ascending order of the number that their digits denote.
\<close>

theorem discovery_order:
  assumes "find_bootanimation_folders fs directory = Inr folders"
    and "i < j" and "j < length folders"
  shows "(digit_suffix (path_name (folders ! j)) = [] \<longrightarrow>
            digit_suffix (path_name (folders ! i)) = []) \<and>
         (digit_suffix (path_name (folders ! i)) \<noteq> [] \<longrightarrow>
            digit_suffix (path_name (folders ! j)) \<noteq> [] \<and>
            int_of_digits (digit_suffix (path_name (folders ! i))) \<le>
            int_of_digits (digit_suffix (path_name (folders ! j))))"
proof -
  from assms(1) obtain items where
    f: "folders = sort_key sort_key_of items"
    by (auto simp: find_bootanimation_folders_def split: sum.splits)
  have "sorted (map sort_key_of folders)" unfolding f by (rule sorted_sort_key)
  from sorted_nth_mono[OF this, of i j] assms(2,3)
  have le: "sort_key_of (folders ! i) \<le> sort_key_of (folders ! j)" by simp
  from assms(2,3) have mi: "folders ! i \<in> set folders" and mj: "folders ! j \<in> set folders"
    by simp_all
  from find_member[OF assms(1) mi] obtain ni gi
    where ni: "folders ! i = directory @ [ni]" and pi: "pattern_match ni = Some gi" by blast
  from find_member[OF assms(1) mj] obtain nj gj
    where nj: "folders ! j = directory @ [nj]" and pj: "pattern_match nj = Some gj" by blast
  from le show ?thesis
    unfolding ni nj sort_key_of_folder[OF pi] sort_key_of_folder[OF pj] path_name_snoc
    by (auto split: if_splits)
qed

lemma pattern_match_iff:
  "pattern_match s \<noteq> None \<longleftrightarrow>
     (\<exists>pre ds nl. s = pre @ ds @ nl \<and> map lower pre = ''bootanimation'' \<and>
        (\<forall>c \<in> set ds. is_digit c) \<and> (nl = [] \<or> nl = [CHR 0x0A]))"
  (is "?l = ?r")
proof
  assume ?l
  then obtain g where g: "pattern_match s = Some g" by auto
  note parts = pattern_match_parts[OF g]
  have dg: "\<forall>c \<in> set g. is_digit c" unfolding parts(3) by (auto dest: set_takeWhileD)
  show ?r
  proof (intro exI conjI)
    show "s = take 13 s @ g @ dropWhile is_digit (drop 13 s)" by (rule parts(1))
    show "map lower (take 13 s) = ''bootanimation''" by (rule parts(2))
    show "\<forall>c \<in> set g. is_digit c" by (rule dg)
    show "dropWhile is_digit (drop 13 s) = [] \<or> dropWhile is_digit (drop 13 s) = [CHR 0x0A]"
      by (rule parts(4))
  qed
next
  assume ?r
  then show ?l
  proof (elim exE conjE)
  fix pre ds nl
  assume s: "s = pre @ ds @ nl" and pre: "map lower pre = ''bootanimation''"
    and ds: "\<forall>c \<in> set ds. is_digit c" and nl: "nl = [] \<or> nl = [CHR 0x0A]"
  have "length (map lower pre) = length ''bootanimation''" by (simp only: pre)
  then have len: "length pre = 13" by simp
  have nd: "\<not> is_digit (CHR 0x0A)" by (simp add: is_digit_def)
  from ds nl nd have tw: "takeWhile is_digit (ds @ nl) = ds"
    by (auto simp: takeWhile_append)
  from ds nl nd have dw: "dropWhile is_digit (ds @ nl) = nl"
    by (auto simp: dropWhile_append)
  from len have tk: "take 13 s = pre" and dr: "drop 13 s = ds @ nl" by (simp_all add: s)
  have c1: "map lower (take 13 s) = ''bootanimation''" unfolding tk by (rule pre)
  have c2: "dropWhile is_digit (drop 13 s) = [] \<or> dropWhile is_digit (drop 13 s) = [CHR 0x0A]"
    unfolding dr dw by (rule nl)
  have c3: "takeWhile is_digit (drop 13 s) = ds" unfolding dr by (rule tw)
  have "pattern_match s =
      (if dropWhile is_digit (drop 13 s) = [] \<or> dropWhile is_digit (drop 13 s) = [CHR 0x0A]
       then Some (takeWhile is_digit (drop 13 s)) else None)"
    unfolding pattern_match_def Let_def by (simp only: c1 if_True refl)
  with c2 have "pattern_match s = Some (takeWhile is_digit (drop 13 s))" by (simp only: if_True)
  then show ?l by simp
  qed
qed

lemma discovery_set:
  assumes "fs_lookup fs directory = Some (Dir es)"
    and "find_bootanimation_folders fs directory = Inr folders"
  shows "set folders =
     {directory @ [nm] | nm. nm \<in> fst ` set es \<and> is_dir fs (directory @ [nm]) \<and>
        pattern_match nm \<noteq> None}"
  (is "_ = ?R")
proof (intro set_eqI iffI)
  fix x assume "x \<in> set folders"
  from find_member[OF assms(2) this] obtain nm g where x: "x = directory @ [nm]"
    and pm: "pattern_match nm = Some g" and dir: "is_dir fs x" by blast
  from dir x assms(1) have "map_of es nm \<noteq> None"
    by (auto simp: is_dir_iff fs_lookup_append fs_lookup_single)
  then have "nm \<in> fst ` set es" by (simp add: map_of_eq_None_iff)
  moreover from pm have "pattern_match nm \<noteq> None" by simp
  ultimately show "x \<in> ?R" using x dir by blast
next
  fix x assume "x \<in> ?R"
  then obtain nm where x: "x = directory @ [nm]" and nm: "nm \<in> fst ` set es"
    and dir: "is_dir fs (directory @ [nm])" and pm: "pattern_match nm \<noteq> None"
    by blast
  from nm have "x \<in> set (map (\<lambda>e. directory @ [fst e]) es)" unfolding x by auto
  with dir pm have "x \<in> set (sort_key sort_key_of
      (filter (\<lambda>item. is_dir fs item \<and> pattern_match (path_name item) \<noteq> None)
         (map (\<lambda>e. directory @ [fst e]) es)))"
    unfolding x set_sort set_filter by (simp add: path_name_snoc)
  with assms show "x \<in> set folders" by (simp add: find_on_dir)
qed

text \<open>What discovery returns: the subdirectories whose name is the thirteen letters in
  any case, then digits, then possibly one newline.\<close>

lemma discovery_characterisation:
  assumes "fs_lookup fs directory = Some (Dir es)"
    and "find_bootanimation_folders fs directory = Inr folders"
  shows "set folders =
     {directory @ [nm] | nm. nm \<in> fst ` set es \<and> is_dir fs (directory @ [nm]) \<and>
        (\<exists>pre ds nl. nm = pre @ ds @ nl \<and> map lower pre = ''bootanimation'' \<and>
           (\<forall>c \<in> set ds. is_digit c) \<and> (nl = [] \<or> nl = [CHR 0x0A]))}"
  using discovery_set[OF assms] unfolding pattern_match_iff .

text \<open>
  C4. Discovery does not return only the subdirectories named \<^verbatim>\<open>bootanimation\<close> plus
  digits: in Python \<^verbatim>\<open>$\<close> also matches just before a newline that ends the string, so a
  subdirectory whose name is \<^verbatim>\<open>bootanimation\<close> followed by a newline is returned as well.
\<close>

theorem discovery_accepts_trailing_newline:
  "find_bootanimation_folders (Dir [(''bootanimation'' @ [CHR 0x0A], Dir [])]) [] =
     Inr [[''bootanimation'' @ [CHR 0x0A]]]"
  by (simp add: find_bootanimation_folders_def iterdir_def is_dir_def path_name_def
      pattern_match_def lower_def is_digit_def)

section \<open>The archive of a valid folder\<close>










section \<open>Runs on the example file systems\<close>

lemmas fs_eval = path_exists_def is_dir_def is_file_def path_name_def iterdir_def
  is_valid_bootanimation_folder_def Let_def
lemmas pattern_eval = pattern_match_def lower_def is_digit_def int_of_digits_def sort_key_of_def
  digit_suffix_def
lemmas zip_eval = zip_folder_store_only_def with_zipfile_def os_walk_def zf_write_def
  relative_to_def print_def
lemmas suffix_eval = with_suffix_def path_name_def suffix_of_def rfind_dot_def
















lemma numbered_find:
  "find_bootanimation_folders numbered_fs [''d''] =
     Inr [[''d'', ''BootAnimation''], [''d'', ''bootanimation2''], [''d'', ''bootanimation10'']]"
  by (simp add: numbered_fs_def find_bootanimation_folders_def fs_eval pattern_eval)

text \<open>Listed as 10, none, 2, the folders are returned as none, 2, 10.\<close>

theorem discovery_order_witness:
  "find_bootanimation_folders numbered_fs [''d''] =
     Inr [[''d'', ''BootAnimation''], [''d'', ''bootanimation2''], [''d'', ''bootanimation10'']] \<and>
   (1 :: nat) < 2 \<and>
   2 < length [[''d'', ''BootAnimation''], [''d'', ''bootanimation2''], [''d'', ''bootanimation10'']] \<and>
   digit_suffix ''bootanimation2'' \<noteq> [] \<and>
   int_of_digits (digit_suffix ''bootanimation2'') \<le> int_of_digits (digit_suffix ''bootanimation10'')"
proof -
  have i: "(1 :: nat) < 2" by simp
  have j: "2 < length [[''d'', ''BootAnimation''], [''d'', ''bootanimation2''],
      [''d'', ''bootanimation10'']]" by simp
  have d: "digit_suffix ''bootanimation2'' \<noteq> []" by (simp add: pattern_eval)
  from discovery_order[OF numbered_find i j] d
  have "int_of_digits (digit_suffix ''bootanimation2'') \<le>
      int_of_digits (digit_suffix ''bootanimation10'')"
    by (simp add: path_name_def)
  with numbered_find i j d show ?thesis by blast
qed

lemma mixed_find:
  "find_bootanimation_folders mixed_fs [''d''] =
     Inr [[''d'', ''bootanimation''], [''d'', ''bootanimation1''], [''d'', ''bootanimation2'']]"
  by (simp add: mixed_fs_def small_folder_def find_bootanimation_folders_def fs_eval pattern_eval)

lemma mixed_is_dir: "is_dir mixed_fs [''d'']"
  by (simp add: mixed_fs_def fs_eval)

lemma mixed_run:
  "process_directory (mixed_fs, []) [''d''] =
     Inr ((1, 2),
       (Dir [(''d'', Dir [
          (''bootanimation2'',
             Dir [(''part0'', Dir []), (''desc.txt'', File False (Bytes ''x''))]),
          (''bootanimation'', small_folder),
          (''bootanimation1'',
             Dir [(''part0'', File True (Bytes [])), (''desc.txt'', Dir [])]),
          (''bootanimation.zip'', File True (Archive small_archive)),
          (''bootanimation2.zip'', File True (Archive []))])],
        [Searching [''d''], Rule, Found 3,
         Processing ''bootanimation'', Created ''bootanimation.zip'',
         Processing ''bootanimation1'', Skipped [],
         Processing ''bootanimation2'', ErrorZipping ''bootanimation2'' PermissionError]))"
proof -
  have "process_directory (mixed_fs, []) [''d''] =
      process_folders
        [[''d'', ''bootanimation''], [''d'', ''bootanimation1''], [''d'', ''bootanimation2'']]
        ((0, 0), (mixed_fs, [Searching [''d''], Rule, Found (Suc (Suc (Suc 0)))]))"
    by (simp add: process_directory_def print_def mixed_find del: process_folders.simps)
  also have "\<dots> = Inr ((1, 2),
       (Dir [(''d'', Dir [
          (''bootanimation2'',
             Dir [(''part0'', Dir []), (''desc.txt'', File False (Bytes ''x''))]),
          (''bootanimation'', small_folder),
          (''bootanimation1'',
             Dir [(''part0'', File True (Bytes [])), (''desc.txt'', Dir [])]),
          (''bootanimation.zip'', File True (Archive small_archive)),
          (''bootanimation2.zip'', File True (Archive []))])],
        [Searching [''d''], Rule, Found 3,
         Processing ''bootanimation'', Created ''bootanimation.zip'',
         Processing ''bootanimation1'', Skipped [],
         Processing ''bootanimation2'', ErrorZipping ''bootanimation2'' PermissionError]))"
    by (simp add: mixed_fs_def small_folder_def small_archive_def process_folder_def fs_eval
        zip_eval suffix_eval)
  finally show ?thesis .
qed

text \<open>Three folders: one archived, one skipped, one whose archiving raises.\<close>

theorem processing_counts_every_folder_witness:
  "is_dir mixed_fs [''d''] \<and>
   find_bootanimation_folders mixed_fs [''d''] =
     Inr [[''d'', ''bootanimation''], [''d'', ''bootanimation1''], [''d'', ''bootanimation2'']] \<and>
   fst (projr (process_directory (mixed_fs, []) [''d''])) = (1, 2) \<and>
   length (filter (folder_fails mixed_fs)
     [[''d'', ''bootanimation''], [''d'', ''bootanimation1''], [''d'', ''bootanimation2'']]) = 2"
  using processing_counts_every_folder[OF mixed_is_dir, of "[]"] mixed_is_dir mixed_find mixed_run
  by auto













end
